theory Spec2Isabelle
  imports Complex_Main
begin

section \<open>Configuration\<close>

text \<open>
  The module-level constants of \<^verbatim>\<open>src/main.py\<close>. \<^verbatim>\<open>WINDOW_WIDTH\<close> and
  \<^verbatim>\<open>WINDOW_HEIGHT\<close> come from the display at start-up, so the functions that read
  them take them as arguments.
\<close>

definition MARGIN :: int where "MARGIN = 100"
definition DISK_MIN_WIDTH :: int where "DISK_MIN_WIDTH = 70"
definition DISK_MAX_WIDTH :: int where "DISK_MAX_WIDTH = 240"
definition DISK_HEIGHT :: int where "DISK_HEIGHT = 20"

definition DISK_COLORS :: "(int \<times> int \<times> int) list" where
  "DISK_COLORS =
     [(244, 67, 54), (33, 150, 243), (76, 175, 80), (255, 235, 59),
      (156, 39, 176), (255, 152, 0), (0, 188, 212), (121, 85, 72),
      (139, 195, 74), (63, 81, 181), (0, 150, 136), (205, 220, 57)]"

definition LIFT_HEIGHT :: int where "LIFT_HEIGHT = 160"
definition H_SPEED :: int where "H_SPEED = 24"
definition V_SPEED :: int where "V_SPEED = 28"
definition PEG_COUNT :: int where "PEG_COUNT = 3"
definition BASE_HEIGHT :: int where "BASE_HEIGHT = 12"

text \<open>The exceptions the modelled code can raise.\<close>

datatype error = IndexError | ZeroDivisionError | PygameError

section \<open>Python floats\<close>

text \<open>
  \<^verbatim>\<open>Disk.__init__\<close> computes the width in floating point. A finite float is
  modelled by the rational it denotes, and every operation rounds the exact result to
  the nearest binary64 value (53 significant bits, ties to even). The exponent range
  is not bounded: the model agrees with binary64 as long as magnitudes stay inside the
  normal range, which holds for every value computed from a disk index and a disk
  count that fit in memory.
\<close>

text \<open>Nearest integer, ties to the even one.\<close>

definition rne :: "rat \<Rightarrow> int" where
  "rne q = (let f = \<lfloor>q\<rfloor>; d = q - of_int f in
            if d < 1 / 2 then f else if 1 / 2 < d then f + 1
            else if even f then f else f + 1)"

text \<open>The binary exponent \<open>e\<close> of a positive rational: \<open>2^e \<le> q < 2^(e+1)\<close>.\<close>

function expo_up :: "rat \<Rightarrow> int" where
  "expo_up q = (if q < 2 then 0 else expo_up (q / 2) + 1)"
  by pat_completeness auto
termination
proof (relation "measure (\<lambda>q. nat \<lfloor>q\<rfloor>)")
  show "wf (measure (\<lambda>q::rat. nat \<lfloor>q\<rfloor>))" by simp
next
  fix q :: rat
  assume "\<not> q < 2"
  then have "q / 2 \<le> q - 1" by simp
  then have "\<lfloor>q / 2\<rfloor> \<le> \<lfloor>q - 1\<rfloor>" by (rule floor_mono)
  moreover have "2 \<le> \<lfloor>q\<rfloor>" using \<open>\<not> q < 2\<close> by (subst le_floor_iff) simp
  ultimately show "(q / 2, q) \<in> measure (\<lambda>q. nat \<lfloor>q\<rfloor>)" by simp
qed

function expo_down :: "rat \<Rightarrow> int" where
  "expo_down q = (if q \<le> 0 \<or> 1 \<le> q then 0 else expo_down (q * 2) - 1)"
  by pat_completeness auto
termination
proof (relation "measure (\<lambda>q. nat \<lfloor>1 / q\<rfloor>)")
  show "wf (measure (\<lambda>q::rat. nat \<lfloor>1 / q\<rfloor>))" by simp
next
  fix q :: rat
  assume a: "\<not> (q \<le> 0 \<or> 1 \<le> q)"
  define r where "r = 1 / q"
  have half: "1 / (q * 2) = r / 2" by (simp add: r_def)
  have r: "1 < r" using a by (simp add: r_def)
  have "\<lfloor>r / 2\<rfloor> < \<lfloor>r\<rfloor>"
  proof (cases "2 \<le> r")
    case True
    then have "r / 2 \<le> r - 1" by simp
    then have "\<lfloor>r / 2\<rfloor> \<le> \<lfloor>r - 1\<rfloor>" by (rule floor_mono)
    then show ?thesis by simp
  next
    case False
    then have "r / 2 < 1" by simp
    then have "\<lfloor>r / 2\<rfloor> < 1" by (subst floor_less_iff) simp
    moreover have "1 \<le> \<lfloor>r\<rfloor>" using r by (subst le_floor_iff) simp
    ultimately show ?thesis by linarith
  qed
  moreover have "0 \<le> \<lfloor>r\<rfloor>" using r by (subst le_floor_iff) simp
  ultimately have "nat \<lfloor>r / 2\<rfloor> < nat \<lfloor>r\<rfloor>" by linarith
  then show "(q * 2, q) \<in> measure (\<lambda>q. nat \<lfloor>1 / q\<rfloor>)"
    by (simp only: in_measure half r_def [symmetric])
qed

declare expo_up.simps [simp del] expo_down.simps [simp del]

definition expo :: "rat \<Rightarrow> int" where
  "expo q = (if 1 \<le> q then expo_up q else expo_down q)"

text \<open>Rounding a positive rational to 53 significant bits.\<close>

definition round53 :: "rat \<Rightarrow> rat" where
  "round53 q = (let e = expo q in of_int (rne (q * 2 powi (52 - e))) * 2 powi (e - 52))"

definition float_round :: "rat \<Rightarrow> rat" where
  "float_round q = (if q = 0 then 0 else if 0 < q then round53 q else - round53 (- q))"

text \<open>
  \<^verbatim>\<open>a / b\<close> on two integers (the correctly rounded quotient; the only division
  of the source is guarded by \<^verbatim>\<open>total_disks > 1\<close>, so the divisor is never zero),
  \<^verbatim>\<open>*\<close> and \<^verbatim>\<open>+\<close> on floats, and \<^verbatim>\<open>int(x)\<close>, which truncates toward zero.
\<close>

definition py_truediv :: "int \<Rightarrow> int \<Rightarrow> rat" where
  "py_truediv a b = float_round (of_int a / of_int b)"

definition float_mul :: "rat \<Rightarrow> rat \<Rightarrow> rat" where
  "float_mul a b = float_round (a * b)"

definition float_add :: "rat \<Rightarrow> rat \<Rightarrow> rat" where
  "float_add a b = float_round (a + b)"

definition py_int :: "rat \<Rightarrow> int" where
  "py_int q = (if 0 \<le> q then \<lfloor>q\<rfloor> else \<lceil>q\<rceil>)"

section \<open>Data structures\<close>

record disk =
  width :: int
  height :: int
  color :: "int \<times> int \<times> int"

text \<open>
  \<^verbatim>\<open>Disk.__init__(size_index, total_disks)\<close>. With \<^verbatim>\<open>total_disks > 1\<close> the factor
  \<^verbatim>\<open>t\<close> is the float \<^verbatim>\<open>size_index / (total_disks - 1)\<close>; otherwise it is the
  integer 0 and the whole expression stays in the integers.
\<close>

definition disk_width :: "int \<Rightarrow> int \<Rightarrow> int" where
  "disk_width size_index total_disks =
     (if total_disks > 1 then
        (let t = py_truediv size_index (total_disks - 1)
         in py_int (float_add (of_int DISK_MIN_WIDTH)
                      (float_mul t (of_int (DISK_MAX_WIDTH - DISK_MIN_WIDTH)))))
      else DISK_MIN_WIDTH + 0 * (DISK_MAX_WIDTH - DISK_MIN_WIDTH))"

definition Disk :: "int \<Rightarrow> int \<Rightarrow> disk" where
  "Disk size_index total_disks =
     \<lparr>width = disk_width size_index total_disks,
      height = DISK_HEIGHT,
      color = DISK_COLORS ! nat (size_index mod int (length DISK_COLORS))\<rparr>"

text \<open>A peg: its x coordinate, its baseline, and its stack with the bottom disk first.\<close>

record peg =
  peg_x :: int
  base_y :: int
  stack :: "disk list"

definition Peg :: "int \<Rightarrow> int \<Rightarrow> peg" where
  "Peg x0 y0 = \<lparr>peg_x = x0, base_y = y0, stack = []\<rparr>"

text \<open>
  Indexing a list with a Python integer: a negative index counts from the end, an index
  out of range raises \<^verbatim>\<open>IndexError\<close>. The result is the position in the list.
\<close>

definition py_index :: "'a list \<Rightarrow> int \<Rightarrow> error + nat" where
  "py_index xs i =
     (if 0 \<le> i \<and> i < int (length xs) then Inr (nat i)
      else if i < 0 \<and> - int (length xs) \<le> i then Inr (nat (int (length xs) + i))
      else Inl IndexError)"

section \<open>Tower of Hanoi animation: the move generator\<close>

text \<open>
  The embedding follows \<^verbatim>\<open>src/main.py\<close>. Python integers are unbounded, so
  they are \<^typ>\<open>int\<close>; a move is the tuple \<^verbatim>\<open>(src_index, dst_index)\<close>.
\<close>

type_synonym move = "int \<times> int"

text \<open>
  \<^verbatim>\<open>hanoi_moves(n, src, aux, dst)\<close> is a generator; \<^verbatim>\<open>run\<close> materialises it
  with \<^verbatim>\<open>list(...)\<close>, so the model is the list of the yielded tuples, in order.
  The recursion ends because \<^verbatim>\<open>n\<close> decreases down to the guard \<^verbatim>\<open>n <= 0\<close>
  (the interpreter's recursion limit is not modelled).
\<close>

function hanoi_moves :: "int \<Rightarrow> int \<Rightarrow> int \<Rightarrow> int \<Rightarrow> move list" where
  "hanoi_moves n src aux dst =
     (if n \<le> 0 then []
      else hanoi_moves (n - 1) src dst aux @ [(src, dst)] @ hanoi_moves (n - 1) aux src dst)"
  by pat_completeness auto
termination
  by (relation "measure (\<lambda>(n, src, aux, dst). nat n)") auto

declare hanoi_moves.simps [simp del]

section \<open>Geometry helpers\<close>

text \<open>\<^verbatim>\<open>disk_position(peg, disk_index_in_stack, disk_width)\<close> returns \<^verbatim>\<open>(left_x, top_y)\<close>.\<close>

definition disk_position :: "peg \<Rightarrow> int \<Rightarrow> int \<Rightarrow> int \<times> int" where
  "disk_position p disk_index_in_stack disk_w =
     (let cx = peg_x p;
          top_y = base_y p - BASE_HEIGHT - (disk_index_in_stack + 1) * DISK_HEIGHT;
          left_x = cx - disk_w div 2
      in (left_x, top_y))"

text \<open>
  \<^verbatim>\<open>peg_positions(width, margin, count)\<close>. \<^verbatim>\<open>//\<close> is floor division, which is
  \<open>div\<close> on \<^typ>\<open>int\<close>; it raises for \<^verbatim>\<open>count = 1\<close>. \<^verbatim>\<open>range(count)\<close> is
  \<open>[0..count - 1]\<close>, empty when \<^verbatim>\<open>count \<le> 0\<close>.
\<close>

definition peg_positions :: "int \<Rightarrow> int \<Rightarrow> int \<Rightarrow> error + int list" where
  "peg_positions total_width margin count =
     (let usable = total_width - 2 * margin
      in if count - 1 = 0 then Inl ZeroDivisionError
         else (let spacing = usable div (count - 1)
               in Inr (map (\<lambda>i. margin + i * spacing) [0..count - 1])))"

section \<open>The display and the event queue\<close>

text \<open>
  What the program does to its environment is kept as a trace. A frame is one call of
  \<^verbatim>\<open>draw_scene(screen, pegs, font, move_counter)\<close> or of
  \<^verbatim>\<open>draw_temporary(screen, pegs, font, move_counter, moving_disk, x, y)\<close>, with the
  arguments that decide the picture. The event queue is the list of the answers the
  coming calls of \<^verbatim>\<open>pygame.event.get()\<close> will give: \<open>True\<close> when the batch holds a
  \<^verbatim>\<open>QUIT\<close> event; once the list is used up no event arrives any more. Frame pacing
  (\<^verbatim>\<open>clock.tick\<close>, \<^verbatim>\<open>pygame.time.delay\<close>) is not modelled.
\<close>

datatype frame =
    Scene "peg list" nat
  | Temporary "peg list" nat disk int int

record env =
  events :: "bool list"
  frames :: "frame list"

definition poll :: "env \<Rightarrow> bool \<times> env" where
  "poll e = (case events e of [] \<Rightarrow> (False, e) | q # qs \<Rightarrow> (q, e\<lparr>events := qs\<rparr>))"

definition draw_scene :: "peg list \<Rightarrow> nat \<Rightarrow> env \<Rightarrow> env" where
  "draw_scene pegs move_counter e = e\<lparr>frames := frames e @ [Scene pegs move_counter]\<rparr>"

definition draw_temporary :: "peg list \<Rightarrow> nat \<Rightarrow> disk \<Rightarrow> int \<Rightarrow> int \<Rightarrow> env \<Rightarrow> env" where
  "draw_temporary pegs move_counter moving_disk x0 y0 e =
     e\<lparr>frames := frames e @ [Temporary pegs move_counter moving_disk x0 y0]\<rparr>"

section \<open>Animation of a single move\<close>

text \<open>
  Step 1 of \<^verbatim>\<open>animate_move\<close>: \<^verbatim>\<open>while y > carry_y: y = max(carry_y, y - V_SPEED)\<close>,
  one frame per iteration. The loop returns the final \<^verbatim>\<open>y\<close>.
\<close>

function lift_loop ::
  "peg list \<Rightarrow> nat \<Rightarrow> disk \<Rightarrow> int \<Rightarrow> int \<Rightarrow> int \<Rightarrow> env \<Rightarrow> int \<times> env" where
  "lift_loop pegs move_counter d x0 y0 carry_y e =
     (if y0 > carry_y then
        (let y1 = max carry_y (y0 - V_SPEED)
         in lift_loop pegs move_counter d x0 y1 carry_y (draw_temporary pegs move_counter d x0 y1 e))
      else (y0, e))"
  by pat_completeness auto
termination
  by (relation "measure (\<lambda>(pegs, move_counter, d, x0, y0, carry_y, e). nat (y0 - carry_y))")
     (auto simp: V_SPEED_def)

text \<open>
  Step 2: \<^verbatim>\<open>while abs(x - target_left_x) > H_SPEED\<close>. Every iteration first reads
  the event queue. On a \<^verbatim>\<open>QUIT\<close> event the source calls \<^verbatim>\<open>pygame.quit()\<close> and
  goes on to \<^verbatim>\<open>draw_temporary\<close>; drawing on the display that was just shut down
  raises \<^verbatim>\<open>pygame.error\<close>, which nothing catches, so the call ends there.
\<close>

function traverse_loop ::
  "peg list \<Rightarrow> nat \<Rightarrow> disk \<Rightarrow> int \<Rightarrow> int \<Rightarrow> int \<Rightarrow> env \<Rightarrow> error + (int \<times> env)" where
  "traverse_loop pegs move_counter d x0 y0 target_left_x e =
     (if \<bar>x0 - target_left_x\<bar> > H_SPEED then
        (if fst (poll e) then Inl PygameError
         else (let direction = (if target_left_x > x0 then 1 else - 1);
                   x1 = x0 + direction * H_SPEED
               in traverse_loop pegs move_counter d x1 y0 target_left_x
                    (draw_temporary pegs move_counter d x1 y0 (snd (poll e)))))
      else Inr (x0, e))"
  by pat_completeness auto
termination
  by (relation "measure (\<lambda>(pegs, move_counter, d, x0, y0, target_left_x, e).
                   nat \<bar>x0 - target_left_x\<bar>)")
     (auto simp: H_SPEED_def)

text \<open>
  Step 3: \<^verbatim>\<open>while y < dst_top_y_target: y = min(dst_top_y_target, y + V_SPEED)\<close>,
  with the same event handling as step 2.
\<close>

function lower_loop ::
  "peg list \<Rightarrow> nat \<Rightarrow> disk \<Rightarrow> int \<Rightarrow> int \<Rightarrow> int \<Rightarrow> env \<Rightarrow> error + (int \<times> env)" where
  "lower_loop pegs move_counter d x0 y0 dst_top_y_target e =
     (if y0 < dst_top_y_target then
        (if fst (poll e) then Inl PygameError
         else (let y1 = min dst_top_y_target (y0 + V_SPEED)
               in lower_loop pegs move_counter d x0 y1 dst_top_y_target
                    (draw_temporary pegs move_counter d x0 y1 (snd (poll e)))))
      else Inr (y0, e))"
  by pat_completeness auto
termination
  by (relation "measure (\<lambda>(pegs, move_counter, d, x0, y0, dst_top_y_target, e).
                   nat (dst_top_y_target - y0))")
     (auto simp: V_SPEED_def)

declare lift_loop.simps [simp del] traverse_loop.simps [simp del] lower_loop.simps [simp del]

text \<open>
  Step 2 as a whole: the loop, then \<^verbatim>\<open>x = target_left_x\<close> and one more frame. It
  returns the final \<^verbatim>\<open>x\<close>.
\<close>

definition traverse ::
  "peg list \<Rightarrow> nat \<Rightarrow> disk \<Rightarrow> int \<Rightarrow> int \<Rightarrow> int \<Rightarrow> env \<Rightarrow> error + (int \<times> env)" where
  "traverse pegs move_counter d x0 y0 target_left_x e =
     (case traverse_loop pegs move_counter d x0 y0 target_left_x e of
        Inl err \<Rightarrow> Inl err
      | Inr (x1, e1) \<Rightarrow>
          (let x2 = target_left_x
           in Inr (x2, draw_temporary pegs move_counter d x2 y0 e1)))"

text \<open>
  \<^verbatim>\<open>animate_move(screen, pegs, font, move_counter, src_idx, dst_idx, clock)\<close>. The
  pegs are objects held in the list \<^verbatim>\<open>pegs\<close>; the model keeps the list as the store
  and addresses the two pegs by their positions, so that the pop is visible through
  \<^verbatim>\<open>dst_peg\<close> when both indices name the same peg. \<^verbatim>\<open>list.pop()\<close> raises
  \<^verbatim>\<open>IndexError\<close> on an empty stack. The result is the new list of pegs.
\<close>

definition animate_move ::
  "peg list \<Rightarrow> nat \<Rightarrow> int \<Rightarrow> int \<Rightarrow> env \<Rightarrow> error + (peg list \<times> env)" where
  "animate_move pegs move_counter src_idx dst_idx e =
     (case py_index pegs src_idx of Inl err \<Rightarrow> Inl err | Inr si \<Rightarrow>
      case py_index pegs dst_idx of Inl err \<Rightarrow> Inl err | Inr di \<Rightarrow>
      if stack (pegs ! si) = [] then Inl IndexError
      else
        (let d = last (stack (pegs ! si));
             pegs1 = pegs[si := (pegs ! si)\<lparr>stack := butlast (stack (pegs ! si))\<rparr>];
             src_peg = pegs1 ! si;
             dst_peg = pegs1 ! di;
             current_stack_index = int (length (stack src_peg));
             left_x = fst (disk_position src_peg current_stack_index (width d));
             top_y = snd (disk_position src_peg current_stack_index (width d));
             carry_y = base_y src_peg - BASE_HEIGHT - 300 - LIFT_HEIGHT;
             lifted = lift_loop pegs1 move_counter d left_x top_y carry_y e;
             target_left_x = peg_x dst_peg - width d div 2
         in case traverse pegs1 move_counter d left_x (fst lifted) target_left_x (snd lifted) of
              Inl err \<Rightarrow> Inl err
            | Inr (x2, e2) \<Rightarrow>
                (let dst_top_y_target =
                       snd (disk_position dst_peg (int (length (stack dst_peg))) (width d))
                 in case lower_loop pegs1 move_counter d x2 (fst lifted) dst_top_y_target e2 of
                      Inl err \<Rightarrow> Inl err
                    | Inr (y3, e3) \<Rightarrow>
                        Inr (pegs1[di := dst_peg\<lparr>stack := stack dst_peg @ [d]\<rparr>], e3))))"

section \<open>The driver\<close>

text \<open>
  The main loop of \<^verbatim>\<open>run\<close>. A \<^verbatim>\<open>QUIT\<close> event clears \<^verbatim>\<open>running\<close>, but the
  iteration still animates its move; once \<^verbatim>\<open>move_counter\<close> reaches
  \<^verbatim>\<open>total_moves\<close> the loop ends. The result is the pegs and the counter at the end.
\<close>

function run_loop ::
  "peg list \<Rightarrow> move list \<Rightarrow> nat \<Rightarrow> env \<Rightarrow> error + (peg list \<times> nat \<times> env)" where
  "run_loop pegs moves move_counter e =
     (let running = \<not> fst (poll e); e1 = snd (poll e)
      in if move_counter < length moves then
           (case animate_move pegs move_counter
                   (fst (moves ! move_counter)) (snd (moves ! move_counter)) e1 of
              Inl err \<Rightarrow> Inl err
            | Inr (pegs2, e2) \<Rightarrow>
                (let e3 = draw_scene pegs2 (move_counter + 1) e2
                 in if running then run_loop pegs2 moves (move_counter + 1) e3
                    else Inr (pegs2, move_counter + 1, e3)))
         else Inr (pegs, move_counter, e1))"
  by pat_completeness auto
termination
  by (relation "measure (\<lambda>(pegs, moves, move_counter, e). length moves - move_counter)") auto

declare run_loop.simps [simp del]

text \<open>
  The stack \<^verbatim>\<open>run\<close> builds on peg 0:
  \<^verbatim>\<open>for i in range(num_disks, 0, -1): pegs[0].stack.append(Disk(i - 1, num_disks))\<close>.
\<close>

definition initial_stack :: "int \<Rightarrow> disk list" where
  "initial_stack num_disks = map (\<lambda>i. Disk (i - 1) num_disks) (rev [1..num_disks])"

text \<open>
  \<^verbatim>\<open>run(num_disks)\<close>, with the window size as arguments. \<^verbatim>\<open>PEG_COUNT\<close> is 3, so
  \<^verbatim>\<open>pegs[0]\<close> exists.
\<close>

definition run :: "int \<Rightarrow> int \<Rightarrow> int \<Rightarrow> env \<Rightarrow> error + (peg list \<times> nat \<times> env)" where
  "run window_width window_height num_disks e =
     (case peg_positions window_width (MARGIN + 40) PEG_COUNT of
        Inl err \<Rightarrow> Inl err
      | Inr xs \<Rightarrow>
          (let y0 = window_height - MARGIN * 2;
               pegs0 = map (\<lambda>x0. Peg x0 y0) xs;
               pegs = pegs0[0 := (pegs0 ! 0)\<lparr>stack := initial_stack num_disks\<rparr>];
               moves = hanoi_moves num_disks 0 1 2;
               move_counter = 0
           in run_loop pegs moves move_counter (draw_scene pegs move_counter e)))"

text \<open>
  The main program: the largest disk count is the requested one clamped by
  \<^verbatim>\<open>max(1, min(args.num_disks, len(DISK_COLORS) * 2))\<close>; the outer loop starts with
  \<^verbatim>\<open>n = 1\<close> and after each run does \<^verbatim>\<open>n += 1; n %= max_n + 1\<close>.
\<close>

definition max_n :: "int \<Rightarrow> int" where
  "max_n num_disks = max 1 (min num_disks (int (length DISK_COLORS) * 2))"

definition next_n :: "int \<Rightarrow> int \<Rightarrow> int" where
  "next_n n bound = (n + 1) mod (bound + 1)"

text \<open>
  The outer loop never ends by itself. As long as no close request arrives and every
  run returns, \<open>main_runs k n bound\<close> is the list of the arguments of its next \<open>k\<close>
  calls of \<^verbatim>\<open>run\<close>, from the counter value \<open>n\<close> on.
\<close>

fun main_runs :: "nat \<Rightarrow> int \<Rightarrow> int \<Rightarrow> int list" where
  "main_runs 0 n bound = []"
| "main_runs (Suc k) n bound = n # main_runs k (next_n n bound) bound"

section \<open>Notions used in the statements\<close>

text \<open>
  A run is undisturbed when no pending answer of the event queue holds a \<^verbatim>\<open>QUIT\<close>
  event. \<open>scenes\<close> picks the pegs of the \<^verbatim>\<open>draw_scene\<close> frames out of a trace:
  they are the states of the pegs between moves.
\<close>

definition no_quit :: "env \<Rightarrow> bool" where
  "no_quit e = (True \<notin> set (events e))"

fun scenes :: "frame list \<Rightarrow> peg list list" where
  "scenes [] = []"
| "scenes (Scene pegs k # fs) = pegs # scenes fs"
| "scenes (Temporary pegs k d x0 y0 # fs) = scenes fs"

text \<open>The effect of a completed move on the pegs.\<close>

definition move_disk :: "peg list \<Rightarrow> nat \<Rightarrow> nat \<Rightarrow> peg list" where
  "move_disk pegs si di =
     (let pegs1 = pegs[si := (pegs ! si)\<lparr>stack := butlast (stack (pegs ! si))\<rparr>]
      in pegs1[di := (pegs1 ! di)\<lparr>stack := stack (pegs1 ! di) @ [last (stack (pegs ! si))]\<rparr>])"

text \<open>
  \<open>step\<close> is the effect of one completed move on the pegs and \<open>play\<close> lists the
  states after each move of a sequence. A state is valid when every stack is sorted
  by width, widest disk at the bottom; a move is legal when its indices name two
  different pegs, the source stack is not empty, and the disk taken is not wider than
  the disk it lands on.
\<close>

definition step :: "peg list \<Rightarrow> move \<Rightarrow> peg list" where
  "step pegs m = move_disk pegs (nat (fst m)) (nat (snd m))"

definition sorted_desc :: "disk list \<Rightarrow> bool" where
  "sorted_desc ds = sorted_wrt (\<lambda>a b. width b \<le> width a) ds"

definition valid_state :: "peg list \<Rightarrow> bool" where
  "valid_state pegs = list_all (\<lambda>p. sorted_desc (stack p)) pegs"

definition legal_move :: "peg list \<Rightarrow> move \<Rightarrow> bool" where
  "legal_move pegs m =
     (0 \<le> fst m \<and> fst m < int (length pegs) \<and> 0 \<le> snd m \<and> snd m < int (length pegs)
      \<and> fst m \<noteq> snd m
      \<and> stack (pegs ! nat (fst m)) \<noteq> []
      \<and> (stack (pegs ! nat (snd m)) = []
          \<or> width (last (stack (pegs ! nat (fst m)))) \<le> width (last (stack (pegs ! nat (snd m))))))"

fun play :: "peg list \<Rightarrow> move list \<Rightarrow> peg list list" where
  "play pegs [] = []"
| "play pegs (m # ms) = step pegs m # play (step pegs m) ms"

fun legal_play :: "peg list \<Rightarrow> move list \<Rightarrow> bool" where
  "legal_play pegs [] = True"
| "legal_play pegs (m # ms) =
     (legal_move pegs m \<and> valid_state (step pegs m) \<and> legal_play (step pegs m) ms)"

text \<open>The float that \<open>disk_width\<close> truncates when \<open>total_disks > 1\<close>.\<close>

definition float_width :: "int \<Rightarrow> int \<Rightarrow> rat" where
  "float_width size_index total_disks =
     float_add (of_int DISK_MIN_WIDTH)
       (float_mul (py_truediv size_index (total_disks - 1))
          (of_int (DISK_MAX_WIDTH - DISK_MIN_WIDTH)))"

text \<open>The pegs \<open>run\<close> starts from.\<close>

definition initial_pegs :: "int \<Rightarrow> int \<Rightarrow> int \<Rightarrow> peg list" where
  "initial_pegs window_width window_height num_disks =
     [\<lparr>peg_x = MARGIN + 40, base_y = window_height - MARGIN * 2, stack = initial_stack num_disks\<rparr>,
      \<lparr>peg_x = MARGIN + 40 + (window_width - 2 * (MARGIN + 40)) div 2,
         base_y = window_height - MARGIN * 2, stack = []\<rparr>,
      \<lparr>peg_x = MARGIN + 40 + 2 * ((window_width - 2 * (MARGIN + 40)) div 2),
         base_y = window_height - MARGIN * 2, stack = []\<rparr>]"

section \<open>Properties of the move generator\<close>

lemma hanoi_moves_length: "length (hanoi_moves n src aux dst) = 2 ^ nat n - 1"
proof (induction n src aux dst rule: hanoi_moves.induct)
  case (1 n src aux dst)
  show ?case
  proof (cases "n \<le> 0")
    case True
    then show ?thesis by (simp add: hanoi_moves.simps)
  next
    case False
    then have n: "nat n = Suc (nat (n - 1))" by simp
    have pos: "(1::nat) \<le> 2 ^ nat (n - 1)" by simp
    from False 1 have
      "length (hanoi_moves n src aux dst) = (2 ^ nat (n - 1) - 1) + 1 + (2 ^ nat (n - 1) - 1)"
      by (subst hanoi_moves.simps) simp
    also have "\<dots> = 2 ^ nat n - 1" using pos by (simp add: n)
    finally show ?thesis .
  qed
qed

text \<open>
  C1. For every \<open>n \<ge> 0\<close> and any three distinct peg indices, the move generator
  produces a sequence of exactly \<open>2^n - 1\<close> moves.
\<close>

theorem hanoi_moves_count:
  assumes "0 \<le> n" and "src \<noteq> aux" and "src \<noteq> dst" and "aux \<noteq> dst"
  shows "int (length (hanoi_moves n src aux dst)) = 2 ^ nat n - 1"
  by (simp add: hanoi_moves_length of_nat_diff)

theorem hanoi_moves_count_witness:
  "(0::int) \<le> 4 \<and> (0::int) \<noteq> 1 \<and> (0::int) \<noteq> 2 \<and> (1::int) \<noteq> 2
   \<and> int (length (hanoi_moves 4 0 1 2)) = 15"
  using hanoi_moves_count [of 4 0 1 2] by simp

text \<open>
  C2. For \<open>n = 3\<close> with source peg 0, auxiliary peg 1 and destination peg 2 the
  generator produces exactly 7 moves, the first is \<open>(0, 2)\<close>, and the whole ordered
  sequence is \<open>(0,2), (0,1), (2,1), (0,2), (1,0), (1,2), (0,2)\<close>.
\<close>

theorem hanoi_moves_three:
  "hanoi_moves 3 0 1 2 = [(0, 2), (0, 1), (2, 1), (0, 2), (1, 0), (1, 2), (0, 2)]
   \<and> length (hanoi_moves 3 0 1 2) = 7
   \<and> hd (hanoi_moves 3 0 1 2) = (0, 2)"
  by (simp add: hanoi_moves.simps)

section \<open>Clamp, counter and peg layout\<close>

text \<open>
  C8. The effective maximum disk count is the requested count clamped into
  \<open>[1, 2 * palette_size]\<close>, with \<open>palette_size = length DISK_COLORS = 12\<close>: a request
  below 1 gives 1, a request above \<open>2 * palette_size\<close> gives exactly that bound, and a
  request inside the range is kept.
\<close>

theorem max_n_clamp:
  "(num_disks < 1 \<longrightarrow> max_n num_disks = 1)
   \<and> (int (length DISK_COLORS) * 2 < num_disks \<longrightarrow> max_n num_disks = int (length DISK_COLORS) * 2)
   \<and> (1 \<le> num_disks \<and> num_disks \<le> int (length DISK_COLORS) * 2 \<longrightarrow> max_n num_disks = num_disks)
   \<and> 1 \<le> max_n num_disks \<and> max_n num_disks \<le> int (length DISK_COLORS) * 2
   \<and> length DISK_COLORS = 12"
  by (auto simp: max_n_def DISK_COLORS_def)

theorem max_n_clamp_witness:
  "(- 3::int) < 1 \<and> max_n (- 3) = 1
   \<and> int (length DISK_COLORS) * 2 < 100 \<and> max_n 100 = 24
   \<and> (1::int) \<le> 7 \<and> 7 \<le> int (length DISK_COLORS) * 2 \<and> max_n 7 = 7"
  using max_n_clamp [of "- 3"] max_n_clamp [of 100] max_n_clamp [of 7]
  by simp

text \<open>
  C7 asks that the run after the one with the maximum disk count has disk count 1. The
  counter update \<^verbatim>\<open>n += 1; n %= max_n + 1\<close> gives 0 there, for every requested
  count, so the next call is \<^verbatim>\<open>run(0)\<close>: with the default request of 5 disks the
  runs are 1, 2, 3, 4, 5, 0, 1, ...
\<close>

lemma next_n_after_max: "next_n (max_n num_disks) (max_n num_disks) = 0"
  by (simp add: next_n_def)

theorem main_runs_reach_zero:
  "next_n (max_n 5) (max_n 5) = 0
   \<and> main_runs 7 1 (max_n 5) = [1, 2, 3, 4, 5, 0, 1]"
  by (simp add: next_n_def max_n_def DISK_COLORS_def numeral_eq_Suc)

text \<open>
  C9. \<open>peg_positions 1000 100 3\<close> returns exactly three x coordinates: the first is
  the margin 100, the last is \<open>width - margin = 900\<close>, and the middle one, 500, is
  halfway between them (spacing \<open>(1000 - 2 * 100) div (3 - 1) = 400\<close>).
\<close>

theorem peg_positions_example:
  "\<exists>xs. peg_positions 1000 100 3 = Inr xs \<and> xs = [100, 500, 900]
      \<and> length xs = 3 \<and> xs ! 0 = 100 \<and> xs ! 2 = 1000 - 100
      \<and> 2 * (xs ! 1) = xs ! 0 + xs ! 2"
  by (simp add: peg_positions_def upto_rec1)

section \<open>The animation of one move\<close>

lemma scenes_append: "scenes (fs @ gs) = scenes fs @ scenes gs"
  by (induction fs rule: scenes.induct) simp_all

lemma poll_no_quit:
  assumes "no_quit e"
  shows "fst (poll e) = False" and "no_quit (snd (poll e))" and "frames (snd (poll e)) = frames e"
  using assms by (auto simp: poll_def no_quit_def split: list.splits)

lemma frames_poll: "frames (snd (poll e)) = frames e"
  by (simp add: poll_def split: list.splits)

lemma draw_temporary_simps:
  "events (draw_temporary pegs k d x0 y0 e) = events e"
  "frames (draw_temporary pegs k d x0 y0 e) = frames e @ [Temporary pegs k d x0 y0]"
  "no_quit (draw_temporary pegs k d x0 y0 e) = no_quit e"
  by (simp_all add: draw_temporary_def no_quit_def)

lemma draw_scene_simps:
  "events (draw_scene pegs k e) = events e"
  "frames (draw_scene pegs k e) = frames e @ [Scene pegs k]"
  "no_quit (draw_scene pegs k e) = no_quit e"
  by (simp_all add: draw_scene_def no_quit_def)

lemma lift_loop_env:
  "no_quit (snd (lift_loop pegs k d x0 y0 c e)) = no_quit e
   \<and> scenes (frames (snd (lift_loop pegs k d x0 y0 c e))) = scenes (frames e)"
proof (induction pegs k d x0 y0 c e rule: lift_loop.induct)
  case (1 pegs k d x0 y0 c e)
  show ?case
  proof (cases "y0 > c")
    case True
    with 1 show ?thesis
      by (subst (1 2) lift_loop.simps) (simp add: Let_def draw_temporary_simps scenes_append)
  next
    case False
    then show ?thesis by (simp add: lift_loop.simps)
  qed
qed

lemma traverse_loop_no_quit:
  assumes "no_quit e"
  shows "\<exists>x1 e1. traverse_loop pegs k d x0 y0 t e = Inr (x1, e1) \<and> no_quit e1
           \<and> scenes (frames e1) = scenes (frames e)
           \<and> length (frames e1) = length (frames e) + nat ((\<bar>x0 - t\<bar> - 1) div H_SPEED)"
  using assms
proof (induction pegs k d x0 y0 t e rule: traverse_loop.induct)
  case (1 pegs k d x0 y0 t e)
  show ?case
  proof (cases "\<bar>x0 - t\<bar> > H_SPEED")
    case False
    then have "(\<bar>x0 - t\<bar> - 1) div H_SPEED \<le> 0"
      by (simp add: H_SPEED_def)
    with False 1(2) show ?thesis
      by (subst traverse_loop.simps) simp
  next
    case True
    define x1 where "x1 = x0 + (if t > x0 then 1 else - 1) * H_SPEED"
    define e0 where "e0 = draw_temporary pegs k d x1 y0 (snd (poll e))"
    have nq: "no_quit e0" using 1(2) by (simp add: e0_def draw_temporary_simps poll_no_quit)
    have unf: "traverse_loop pegs k d x0 y0 t e = traverse_loop pegs k d x1 y0 t e0"
      using True 1(2) by (subst traverse_loop.simps) (simp add: poll_no_quit x1_def e0_def Let_def)
    from 1(1) [OF True _ refl refl nq [unfolded e0_def x1_def]] 1(2)
    obtain x2 e2 where r: "traverse_loop pegs k d x1 y0 t e0 = Inr (x2, e2)" "no_quit e2"
      "scenes (frames e2) = scenes (frames e0)"
      "length (frames e2) = length (frames e0) + nat ((\<bar>x1 - t\<bar> - 1) div H_SPEED)"
      by (auto simp: poll_no_quit x1_def e0_def)
    have dist: "\<bar>x1 - t\<bar> = \<bar>x0 - t\<bar> - H_SPEED" using True by (auto simp: x1_def H_SPEED_def)
    have cnt: "nat ((\<bar>x0 - t\<bar> - 1) div H_SPEED) = Suc (nat ((\<bar>x1 - t\<bar> - 1) div H_SPEED))"
      using True unfolding dist by (simp add: H_SPEED_def)
    show ?thesis
      using r by (simp add: unf cnt e0_def draw_temporary_simps frames_poll scenes_append)
  qed
qed

lemma traverse_loop_total:
  "traverse_loop pegs k d x0 y0 t e = Inl PygameError
   \<or> (\<exists>x1 e1. traverse_loop pegs k d x0 y0 t e = Inr (x1, e1) \<and> \<bar>x1 - t\<bar> \<le> H_SPEED)"
proof (induction pegs k d x0 y0 t e rule: traverse_loop.induct)
  case (1 pegs k d x0 y0 t e)
  show ?case
  proof (cases "\<bar>x0 - t\<bar> > H_SPEED")
    case False
    then show ?thesis by (subst (1 2) traverse_loop.simps) simp
  next
    case True
    show ?thesis
    proof (cases "fst (poll e)")
      case True
      with \<open>\<bar>x0 - t\<bar> > H_SPEED\<close> show ?thesis by (subst traverse_loop.simps) simp
    next
      case False
      with True 1 show ?thesis
        by (subst (1 2) traverse_loop.simps) (simp add: Let_def)
    qed
  qed
qed

lemma lower_loop_no_quit:
  assumes "no_quit e"
  shows "\<exists>y1 e1. lower_loop pegs k d x0 y0 t e = Inr (y1, e1) \<and> no_quit e1
           \<and> scenes (frames e1) = scenes (frames e)"
  using assms
proof (induction pegs k d x0 y0 t e rule: lower_loop.induct)
  case (1 pegs k d x0 y0 t e)
  show ?case
  proof (cases "y0 < t")
    case False
    with 1(2) show ?thesis by (subst lower_loop.simps) simp
  next
    case True
    define y1 where "y1 = min t (y0 + V_SPEED)"
    define e0 where "e0 = draw_temporary pegs k d x0 y1 (snd (poll e))"
    have nq: "no_quit e0" using 1(2) by (simp add: e0_def draw_temporary_simps poll_no_quit)
    have unf: "lower_loop pegs k d x0 y0 t e = lower_loop pegs k d x0 y1 t e0"
      using True 1(2) by (subst lower_loop.simps) (simp add: poll_no_quit y1_def e0_def Let_def)
    from 1(1) [OF True _ refl nq [unfolded e0_def y1_def]] 1(2)
    obtain y2 e2 where "lower_loop pegs k d x0 y1 t e0 = Inr (y2, e2)" "no_quit e2"
      "scenes (frames e2) = scenes (frames e0)"
      by (auto simp: poll_no_quit y1_def e0_def)
    then show ?thesis
      by (simp add: unf e0_def draw_temporary_simps frames_poll scenes_append)
  qed
qed

lemma traverse_no_quit:
  assumes "no_quit e"
  shows "\<exists>e1. traverse pegs k d x0 y0 t e = Inr (t, e1) \<and> no_quit e1
           \<and> scenes (frames e1) = scenes (frames e)
           \<and> length (frames e1) = length (frames e) + nat ((\<bar>x0 - t\<bar> - 1) div H_SPEED) + 1"
proof -
  from traverse_loop_no_quit [OF assms, of pegs k d x0 y0 t]
  obtain x1 e1 where "traverse_loop pegs k d x0 y0 t e = Inr (x1, e1)" "no_quit e1"
    "scenes (frames e1) = scenes (frames e)"
    "length (frames e1) = length (frames e) + nat ((\<bar>x0 - t\<bar> - 1) div H_SPEED)"
    by blast
  then show ?thesis
    by (simp add: traverse_def draw_temporary_simps scenes_append)
qed

lemma animate_move_no_quit:
  assumes "no_quit e" and "py_index pegs src_idx = Inr si" and "py_index pegs dst_idx = Inr di"
    and "stack (pegs ! si) \<noteq> []"
  shows "\<exists>e1. animate_move pegs k src_idx dst_idx e = Inr (move_disk pegs si di, e1)
           \<and> no_quit e1 \<and> scenes (frames e1) = scenes (frames e)"
proof -
  define d where "d = last (stack (pegs ! si))"
  define pegs1 where "pegs1 = pegs[si := (pegs ! si)\<lparr>stack := butlast (stack (pegs ! si))\<rparr>]"
  define src_peg where "src_peg = pegs1 ! si"
  define dst_peg where "dst_peg = pegs1 ! di"
  define csi where "csi = int (length (stack src_peg))"
  define left_x where "left_x = fst (disk_position src_peg csi (width d))"
  define top_y where "top_y = snd (disk_position src_peg csi (width d))"
  define carry_y where "carry_y = base_y src_peg - BASE_HEIGHT - 300 - LIFT_HEIGHT"
  define lifted where "lifted = lift_loop pegs1 k d left_x top_y carry_y e"
  define t where "t = peg_x dst_peg - width d div 2"
  define ty where "ty = snd (disk_position dst_peg (int (length (stack dst_peg))) (width d))"
  have l: "no_quit (snd lifted)" "scenes (frames (snd lifted)) = scenes (frames e)"
    using assms(1) lift_loop_env [of pegs1 k d left_x top_y carry_y e] by (simp_all add: lifted_def)
  from traverse_no_quit [OF l(1), of pegs1 k d left_x "fst lifted" t]
  obtain e2 where t2: "traverse pegs1 k d left_x (fst lifted) t (snd lifted) = Inr (t, e2)"
    "no_quit e2" "scenes (frames e2) = scenes (frames (snd lifted))"
    by blast
  from lower_loop_no_quit [OF t2(2), of pegs1 k d t "fst lifted" ty]
  obtain y3 e3 where l3: "lower_loop pegs1 k d t (fst lifted) ty e2 = Inr (y3, e3)"
    "no_quit e3" "scenes (frames e3) = scenes (frames e2)"
    by blast
  have "animate_move pegs k src_idx dst_idx e
          = Inr (pegs1[di := dst_peg\<lparr>stack := stack dst_peg @ [d]\<rparr>], e3)"
    unfolding animate_move_def assms(2,3)
    using assms(4) t2(1) l3(1)
    by (simp add: Let_def d_def [symmetric] pegs1_def [symmetric] src_peg_def [symmetric]
          dst_peg_def [symmetric] csi_def [symmetric] left_x_def [symmetric]
          top_y_def [symmetric] carry_y_def [symmetric] lifted_def [symmetric]
          t_def [symmetric] ty_def [symmetric])
  moreover have "pegs1[di := dst_peg\<lparr>stack := stack dst_peg @ [d]\<rparr>] = move_disk pegs si di"
    by (simp add: move_disk_def Let_def pegs1_def dst_peg_def d_def)
  ultimately show ?thesis using l3 t2 l by simp
qed

lemma traverse_total:
  "traverse pegs k d x0 y0 t e = Inl PygameError
   \<or> (\<exists>e1. traverse pegs k d x0 y0 t e = Inr (t, e1))"
  using traverse_loop_total [of pegs k d x0 y0 t e]
  by (auto simp: traverse_def)

lemma traverse_zero_steps:
  assumes "\<bar>x0 - t\<bar> \<le> H_SPEED"
  shows "traverse pegs k d x0 y0 t e = Inr (t, draw_temporary pegs k d t y0 e)"
  using assms by (simp add: traverse_def traverse_loop.simps)

text \<open>
  C5. For every integer start \<open>x0\<close> and integer target \<open>t\<close> the horizontal traverse
  ends: its loop either stops on a close request (\<^verbatim>\<open>pygame.error\<close>) or is left
  within one speed step of the target, and the traverse then returns with the disk's
  x coordinate equal to the target exactly. Without a close request it returns
  after \<open>(|x0 - t| - 1) div H_SPEED\<close> loop iterations (none at all when negative) and
  the one frame drawn at the target; when the start is within one speed step of the
  target the loop body does not run and only that frame is drawn. In
  \<open>animate_move\<close> the target is the destination peg's x minus half the disk's width.
\<close>

theorem traverse_snaps_to_target:
  "(traverse_loop pegs k d x0 y0 t e = Inl PygameError
      \<or> (\<exists>x1 e1. traverse_loop pegs k d x0 y0 t e = Inr (x1, e1) \<and> \<bar>x1 - t\<bar> \<le> H_SPEED))
   \<and> (traverse pegs k d x0 y0 t e = Inl PygameError
      \<or> (\<exists>e1. traverse pegs k d x0 y0 t e = Inr (t, e1)))
   \<and> (no_quit e \<longrightarrow>
        (\<exists>e1. traverse pegs k d x0 y0 t e = Inr (t, e1)
           \<and> length (frames e1)
               = length (frames e) + nat ((\<bar>x0 - t\<bar> - 1) div H_SPEED) + 1))
   \<and> (\<bar>x0 - t\<bar> \<le> H_SPEED \<longrightarrow>
        traverse pegs k d x0 y0 t e = Inr (t, draw_temporary pegs k d t y0 e))"
proof (intro conjI impI)
  show "traverse_loop pegs k d x0 y0 t e = Inl PygameError
      \<or> (\<exists>x1 e1. traverse_loop pegs k d x0 y0 t e = Inr (x1, e1) \<and> \<bar>x1 - t\<bar> \<le> H_SPEED)"
    by (rule traverse_loop_total)
next
  show "traverse pegs k d x0 y0 t e = Inl PygameError
      \<or> (\<exists>e1. traverse pegs k d x0 y0 t e = Inr (t, e1))"
    by (rule traverse_total)
next
  assume "no_quit e"
  from traverse_no_quit [OF this, of pegs k d x0 y0 t]
  show "\<exists>e1. traverse pegs k d x0 y0 t e = Inr (t, e1)
           \<and> length (frames e1)
               = length (frames e) + nat ((\<bar>x0 - t\<bar> - 1) div H_SPEED) + 1"
    by blast
next
  assume "\<bar>x0 - t\<bar> \<le> H_SPEED"
  then show "traverse pegs k d x0 y0 t e = Inr (t, draw_temporary pegs k d t y0 e)"
    by (rule traverse_zero_steps)
qed

theorem traverse_snaps_to_target_witness:
  "no_quit \<lparr>events = [False], frames = []\<rparr>
   \<and> (\<exists>e1. traverse [] 0 (Disk 0 1) 0 7 100 \<lparr>events = [False], frames = []\<rparr> = Inr (100, e1)
         \<and> length (frames e1) = 5)
   \<and> \<bar>90 - 100\<bar> \<le> H_SPEED
   \<and> traverse [] 0 (Disk 0 1) 90 7 100 \<lparr>events = [True], frames = []\<rparr>
       = Inr (100, draw_temporary [] 0 (Disk 0 1) 100 7 \<lparr>events = [True], frames = []\<rparr>)"
proof -
  have nq: "no_quit \<lparr>events = [False], frames = []\<rparr>" by (simp add: no_quit_def)
  have near: "\<bar>90 - 100\<bar> \<le> H_SPEED" by (simp add: H_SPEED_def)
  show ?thesis
    using nq near
      traverse_snaps_to_target [of "[]" 0 "Disk 0 1" 0 7 100 "\<lparr>events = [False], frames = []\<rparr>"]
      traverse_snaps_to_target [of "[]" 0 "Disk 0 1" 90 7 100 "\<lparr>events = [True], frames = []\<rparr>"]
    by (simp add: H_SPEED_def)
qed






section \<open>Properties of the float model\<close>

lemma rne_bounds: "\<lfloor>q\<rfloor> \<le> rne q \<and> rne q \<le> \<lfloor>q\<rfloor> + 1"
  by (simp add: rne_def Let_def)

lemma rne_of_int: "rne (of_int z) = z"
  by (simp add: rne_def)

lemma rne_err: "\<bar>of_int (rne q) - q\<bar> \<le> 1 / 2"
proof -
  have "of_int \<lfloor>q\<rfloor> \<le> q" "q < of_int \<lfloor>q\<rfloor> + 1" by linarith+
  then show ?thesis by (auto simp: rne_def Let_def)
qed

lemma rne_mono:
  assumes "p \<le> q"
  shows "rne p \<le> rne q"
proof (cases "\<lfloor>p\<rfloor> < \<lfloor>q\<rfloor>")
  case True
  then show ?thesis using rne_bounds [of p] rne_bounds [of q] by linarith
next
  case False
  with assms have eq: "\<lfloor>p\<rfloor> = \<lfloor>q\<rfloor>" using floor_mono [of p q] by linarith
  show ?thesis using assms by (auto simp: rne_def Let_def eq)
qed

lemma two_powi_Suc: "(2::rat) powi (e + 1) = 2 powi e * 2"
  by (rule power_int_add_1) simp

lemma two_powi_pred: "(2::rat) powi (e - 1) = 2 powi e / 2"
  using power_int_minus_mult [of "2::rat" e] by simp

lemma expo_up_bounds:
  "1 \<le> q \<Longrightarrow> 2 powi (expo_up q) \<le> q \<and> q < 2 powi (expo_up q + 1)"
proof (induction q rule: expo_up.induct)
  case (1 q)
  show ?case
  proof (cases "q < 2")
    case True
    then have "expo_up q = 0" by (subst expo_up.simps) simp
    with True 1(2) show ?thesis by simp
  next
    case False
    define e where "e = expo_up (q / 2)"
    have eq: "expo_up q = e + 1" using False by (subst expo_up.simps) (simp add: e_def)
    have "1 \<le> q / 2" using False by simp
    from 1(1) [OF False this] have "2 powi e \<le> q / 2" "q / 2 < 2 powi (e + 1)"
      by (simp_all only: e_def)
    then show ?thesis
      unfolding eq using two_powi_Suc [of e] two_powi_Suc [of "e + 1"] by linarith
  qed
qed

lemma expo_down_bounds:
  "0 < q \<Longrightarrow> q < 1 \<Longrightarrow> 2 powi (expo_down q) \<le> q \<and> q < 2 powi (expo_down q + 1)"
proof (induction q rule: expo_down.induct)
  case (1 q)
  have c: "\<not> (q \<le> 0 \<or> 1 \<le> q)" using 1(2,3) by simp
  define e where "e = expo_down (q * 2)"
  have eq: "expo_down q = e - 1" using c by (subst expo_down.simps) (simp add: e_def)
  have b: "2 powi e \<le> q * 2 \<and> q * 2 < 2 powi (e + 1)"
  proof (cases "q * 2 < 1")
    case True
    from 1(1) [OF c _ True] 1(2) show ?thesis by (simp only: e_def)
  next
    case False
    then have "e = 0" unfolding e_def by (subst expo_down.simps) simp
    with False 1(3) show ?thesis by simp
  qed
  have "(2::rat) powi (e - 1 + 1) = 2 powi e" by simp
  with b show ?case
    unfolding eq using two_powi_pred [of e] two_powi_Suc [of e] by linarith
qed

lemma expo_bounds:
  assumes "0 < q"
  shows "2 powi (expo q) \<le> q" and "q < 2 powi (expo q + 1)"
  using assms expo_up_bounds [of q] expo_down_bounds [of q]
  by (auto simp: expo_def not_le)

lemma expo_mono:
  assumes "0 < p" and "p \<le> q"
  shows "expo p \<le> expo q"
proof (rule ccontr)
  assume "\<not> expo p \<le> expo q"
  then have "expo q + 1 \<le> expo p" by simp
  then have "(2::rat) powi (expo q + 1) \<le> 2 powi (expo p)"
    by (intro power_int_increasing) simp_all
  with expo_bounds [of p] expo_bounds [of q] assms show False by linarith
qed

lemma round53_props:
  assumes "0 < q"
  shows "2 powi (expo q) \<le> round53 q"
    and "round53 q \<le> 2 powi (expo q + 1)"
    and "\<bar>round53 q - q\<bar> \<le> q / 2 ^ 53"
proof -
  define e where "e = expo q"
  define a :: rat where "a = 2 powi (52 - e)"
  define b :: rat where "b = 2 powi (e - 52)"
  define m where "m = q * a"
  have pos: "0 < a" "0 < b" by (simp_all add: a_def b_def)
  have ab: "a * b = 1"
    unfolding a_def b_def by (subst power_int_add [symmetric]) simp_all
  have pe: "2 powi e = 2 ^ 52 * b"
    unfolding b_def using power_int_add [of "2::rat" 52 "e - 52"] by simp
  have pe1: "2 powi (e + 1) = 2 ^ 53 * b"
    using pe two_powi_Suc [of e] by simp
  have r: "round53 q = of_int (rne m) * b"
    by (simp add: round53_def Let_def e_def m_def a_def b_def)
  have qm: "q = m * b" using ab by (simp add: m_def mult.assoc)
  have lo: "2 powi e \<le> q" and hi: "q < 2 powi (e + 1)"
    using expo_bounds [OF assms] by (simp_all add: e_def)
  have "2 ^ 52 * b * a \<le> q * a" using lo pos unfolding pe by (intro mult_right_mono) simp_all
  then have mlo: "of_int (2 ^ 52) \<le> m" using ab by (simp add: m_def mult.assoc mult.commute [of b a])
  have "q * a < 2 ^ 53 * b * a" using hi pos unfolding pe1 by (intro mult_strict_right_mono) simp_all
  then have mhi: "m \<le> of_int (2 ^ 53)"
    using ab by (simp add: m_def mult.assoc mult.commute [of b a])
  have rlo: "2 ^ 52 \<le> rne m" using rne_mono [OF mlo] by (simp only: rne_of_int)
  have rhi: "rne m \<le> 2 ^ 53" using rne_mono [OF mhi] by (simp only: rne_of_int)
  have "(2 ^ 52 :: rat) \<le> of_int (rne m)" using rlo by (simp add: of_int_le_iff [symmetric] del: of_int_le_iff)
  then have "2 ^ 52 * b \<le> of_int (rne m) * b" using pos by (intro mult_right_mono) simp_all
  then show "2 powi (expo q) \<le> round53 q" by (simp only: r pe e_def [symmetric])
  have "(of_int (rne m) :: rat) \<le> 2 ^ 53" using rhi by (simp add: of_int_le_iff [symmetric] del: of_int_le_iff)
  then have "of_int (rne m) * b \<le> 2 ^ 53 * b" using pos by (intro mult_right_mono) simp_all
  then show "round53 q \<le> 2 powi (expo q + 1)" by (simp only: r pe1 e_def [symmetric])
  have "round53 q - q = (of_int (rne m) - m) * b" by (subst qm) (simp add: r algebra_simps)
  then have "\<bar>round53 q - q\<bar> = \<bar>of_int (rne m) - m\<bar> * b" using pos by (simp add: abs_mult)
  also have "\<dots> \<le> 1 / 2 * b" using rne_err [of m] pos by (intro mult_right_mono) simp_all
  also have "\<dots> = 2 powi e / 2 ^ 53" by (simp add: pe)
  also have "\<dots> \<le> q / 2 ^ 53" using lo by (simp add: divide_right_mono)
  finally show "\<bar>round53 q - q\<bar> \<le> q / 2 ^ 53" .
qed

lemma round53_mono:
  assumes "0 < p" and "p \<le> q"
  shows "round53 p \<le> round53 q"
proof (cases "expo p = expo q")
  case True
  have "p * 2 powi (52 - expo q) \<le> q * 2 powi (52 - expo q)"
    using assms(2) by (intro mult_right_mono) simp_all
  then have "rne (p * 2 powi (52 - expo q)) \<le> rne (q * 2 powi (52 - expo q))"
    by (rule rne_mono)
  then have "(of_int (rne (p * 2 powi (52 - expo q))) :: rat) \<le> of_int (rne (q * 2 powi (52 - expo q)))"
    by simp
  then show ?thesis
    unfolding round53_def Let_def True by (intro mult_right_mono) simp_all
next
  case False
  with expo_mono [OF assms] have "expo p + 1 \<le> expo q" by simp
  then have "(2::rat) powi (expo p + 1) \<le> 2 powi (expo q)"
    by (intro power_int_increasing) simp_all
  moreover have "0 < q" using assms by simp
  ultimately show ?thesis
    using round53_props(2) [OF assms(1)] round53_props(1) [of q] by linarith
qed

lemma float_round_nonneg: "0 \<le> q \<Longrightarrow> 0 \<le> float_round q"
  using round53_props(1) [of q] zero_le_power_int [of "2::rat" "expo q"]
  by (cases "q = 0") (auto simp: float_round_def simp del: zero_le_power_int)

lemma float_round_mono:
  assumes "0 \<le> p" and "p \<le> q"
  shows "float_round p \<le> float_round q"
proof (cases "p = 0")
  case True
  then show ?thesis using float_round_nonneg [of q] assms by (simp add: float_round_def)
next
  case False
  with assms have "0 < p" "0 < q" by simp_all
  then show ?thesis using round53_mono [OF _ assms(2)] by (simp add: float_round_def)
qed

lemma float_round_err:
  assumes "0 \<le> q"
  shows "\<bar>float_round q - q\<bar> \<le> q / 2 ^ 53"
  using assms round53_props(3) [of q] by (cases "q = 0") (simp_all add: float_round_def)

lemma float_round_0: "float_round 0 = 0"
  by (simp add: float_round_def)

lemma float_round_ints:
  "float_round 1 = 1" "float_round 70 = 70" "float_round 170 = 170" "float_round 240 = 240"
  by (simp_all add: float_round_def round53_def expo_def expo_up.simps rne_def Let_def)

lemma disk_width_float:
  "1 < n \<Longrightarrow> disk_width i n = py_int (float_width i n)"
  by (simp add: disk_width_def float_width_def Let_def)

lemma float_width_unfold:
  "float_width i n = float_round (70 + float_round (float_round (of_int i / of_int (n - 1)) * 170))"
  by (simp add: float_width_def float_add_def float_mul_def py_truediv_def
      DISK_MIN_WIDTH_def DISK_MAX_WIDTH_def)

lemma float_width_mono:
  assumes "1 < n" and "0 \<le> i" and "i \<le> j"
  shows "float_width i n \<le> float_width j n" and "0 \<le> float_width i n"
proof -
  have m: "(0::rat) < of_int (n - 1)" using assms(1) by simp
  have a: "(0::rat) \<le> of_int i / of_int (n - 1)"
    "(of_int i :: rat) / of_int (n - 1) \<le> of_int j / of_int (n - 1)"
    using assms m by (simp_all add: divide_right_mono)
  have t0: "0 \<le> float_round (of_int i / of_int (n - 1))" using a(1) by (rule float_round_nonneg)
  have t: "float_round (of_int i / of_int (n - 1)) \<le> float_round (of_int j / of_int (n - 1))"
    using a by (rule float_round_mono)
  have b0: "0 \<le> float_round (of_int i / of_int (n - 1)) * 170" using t0 by simp
  have b: "float_round (of_int i / of_int (n - 1)) * 170 \<le> float_round (of_int j / of_int (n - 1)) * 170"
    using t by simp
  have p0: "0 \<le> float_round (float_round (of_int i / of_int (n - 1)) * 170)"
    using b0 by (rule float_round_nonneg)
  have p: "float_round (float_round (of_int i / of_int (n - 1)) * 170)
            \<le> float_round (float_round (of_int j / of_int (n - 1)) * 170)"
    using b0 b by (rule float_round_mono)
  have c0: "0 \<le> 70 + float_round (float_round (of_int i / of_int (n - 1)) * 170)" using p0 by simp
  show "float_width i n \<le> float_width j n"
    unfolding float_width_unfold using c0 p by (intro float_round_mono) simp_all
  show "0 \<le> float_width i n"
    unfolding float_width_unfold using c0 by (rule float_round_nonneg)
qed

lemma py_int_mono: "0 \<le> p \<Longrightarrow> p \<le> q \<Longrightarrow> py_int p \<le> py_int q"
  by (simp add: py_int_def floor_mono)

lemma disk_width_mono:
  assumes "0 \<le> i" and "i \<le> j"
  shows "disk_width i n \<le> disk_width j n"
proof (cases "1 < n")
  case True
  then show ?thesis
    using float_width_mono [OF True assms] by (simp add: disk_width_float py_int_mono)
next
  case False
  then show ?thesis by (simp add: disk_width_def)
qed

lemma float_width_err:
  assumes "1 < n" and "0 \<le> i" and "i \<le> n - 1"
  shows "\<bar>float_width i n - (70 + 170 * (of_int i / of_int (n - 1)))\<bar> \<le> 1 / 2 ^ 43"
proof -
  define a :: rat where "a = of_int i / of_int (n - 1)"
  define t where "t = float_round a"
  define b where "b = t * 170"
  define p where "p = float_round b"
  define c where "c = 70 + p"
  have m: "(0::rat) < of_int (n - 1)" using assms(1) by simp
  have a0: "0 \<le> a" using assms m by (simp add: a_def)
  have "(of_int i :: rat) \<le> of_int (n - 1)" using assms(3) by (simp only: of_int_le_iff)
  then have a1: "a \<le> 1" using m by (simp add: a_def)
  have t0: "0 \<le> t" unfolding t_def using a0 by (rule float_round_nonneg)
  have t1: "t \<le> 1" unfolding t_def using float_round_mono [OF a0 a1] by (simp add: float_round_ints)
  have et: "\<bar>t - a\<bar> \<le> 1 / 2 ^ 53"
  proof -
    have "\<bar>t - a\<bar> \<le> a / 2 ^ 53" unfolding t_def using a0 by (rule float_round_err)
    also have "\<dots> \<le> 1 / 2 ^ 53" using a1 by (simp add: divide_right_mono)
    finally show ?thesis .
  qed
  have b0: "0 \<le> b" using t0 by (simp add: b_def)
  have b1: "b \<le> 170" using t1 by (simp add: b_def)
  have eb: "\<bar>b - 170 * a\<bar> \<le> 170 / 2 ^ 53"
  proof -
    have "b - 170 * a = 170 * (t - a)" by (simp add: b_def algebra_simps)
    then have "\<bar>b - 170 * a\<bar> = \<bar>170\<bar> * \<bar>t - a\<bar>" by (simp only: abs_mult)
    with et show ?thesis by simp
  qed
  have p0: "0 \<le> p" unfolding p_def using b0 by (rule float_round_nonneg)
  have p1: "p \<le> 170" unfolding p_def using float_round_mono [OF b0 b1] by (simp add: float_round_ints)
  have ep: "\<bar>p - b\<bar> \<le> 170 / 2 ^ 53"
  proof -
    have "\<bar>p - b\<bar> \<le> b / 2 ^ 53" unfolding p_def using b0 by (rule float_round_err)
    also have "\<dots> \<le> 170 / 2 ^ 53" using b1 by (simp add: divide_right_mono)
    finally show ?thesis .
  qed
  have c0: "0 \<le> c" and c1: "c \<le> 240" using p0 p1 by (simp_all add: c_def)
  have ec: "\<bar>float_round c - c\<bar> \<le> 240 / 2 ^ 53"
  proof -
    have "\<bar>float_round c - c\<bar> \<le> c / 2 ^ 53" using c0 by (rule float_round_err)
    also have "\<dots> \<le> 240 / 2 ^ 53" using c1 by (simp add: divide_right_mono)
    finally show ?thesis .
  qed
  have w: "float_width i n = float_round c"
    by (simp add: float_width_unfold c_def p_def b_def t_def a_def)
  define u :: rat where "u = 1 / 2 ^ 53"
  have "\<bar>float_round c - c\<bar> \<le> 240 * u" "\<bar>p - b\<bar> \<le> 170 * u" "\<bar>b - 170 * a\<bar> \<le> 170 * u"
    using ec ep eb by (simp_all add: u_def)
  then have "\<bar>float_round c - (70 + 170 * a)\<bar> \<le> 580 * u"
    unfolding c_def by linarith
  also have "\<dots> \<le> 1 / 2 ^ 43" by (simp add: u_def)
  finally show ?thesis by (simp only: w a_def)
qed

lemma disk_width_strict:
  assumes "1 < n" and "n \<le> 170" and "0 \<le> i" and "i < j" and "j < n"
  shows "disk_width i n < disk_width j n"
proof -
  define m :: rat where "m = of_int (n - 1)"
  have m: "0 < m" "m \<le> 169" using assms(1,2) by (simp_all add: m_def)
  have ij: "(1::rat) \<le> of_int j - of_int i"
    using assms(4) by (simp add: of_int_diff [symmetric] del: of_int_diff)
  have "1 / 169 \<le> (of_int j - of_int i) / m"
    using ij m by (intro frac_le) simp_all
  then have gap: "170 / 169 \<le> (70 + 170 * (of_int j / m)) - (70 + 170 * (of_int i / m))"
    by (simp add: diff_divide_distrib algebra_simps)
  have ei: "\<bar>float_width i n - (70 + 170 * (of_int i / m))\<bar> \<le> 1 / 2 ^ 43"
    unfolding m_def using assms by (intro float_width_err) simp_all
  have ej: "\<bar>float_width j n - (70 + 170 * (of_int j / m))\<bar> \<le> 1 / 2 ^ 43"
    unfolding m_def using assms by (intro float_width_err) simp_all
  have "(170::rat) / 169 - 2 / 2 ^ 43 \<ge> 1" by simp
  with gap ei ej have "float_width i n + 1 \<le> float_width j n" by linarith
  then have "\<lfloor>float_width i n + 1\<rfloor> \<le> \<lfloor>float_width j n\<rfloor>" by (rule floor_mono)
  then have "\<lfloor>float_width i n\<rfloor> < \<lfloor>float_width j n\<rfloor>" by simp
  moreover have "0 \<le> float_width i n" "0 \<le> float_width j n"
    using float_width_mono(2) [of n i i] float_width_mono(2) [of n j j] assms by simp_all
  ultimately show ?thesis using assms(1) by (simp add: disk_width_float py_int_def)
qed

lemma disk_width_172: "disk_width 0 172 = 70" "disk_width 1 172 = 70"
proof -
  have z: "float_width 0 172 = 70"
    by (simp add: float_width_unfold float_round_ints float_round_0)
  then show "disk_width 0 172 = 70" by (simp add: disk_width_float py_int_def)
  define x :: rat where "x = 70 + 170 * (of_int 1 / of_int (172 - 1))"
  define u :: rat where "u = 1 / 2 ^ 43"
  have "\<bar>float_width 1 172 - x\<bar> \<le> u"
    unfolding x_def u_def by (intro float_width_err) simp_all
  moreover have "u \<le> 1 / 1000" by (simp add: u_def)
  moreover have "x = 70 + 170 / 171" by (simp add: x_def)
  ultimately have "70 \<le> float_width 1 172" "float_width 1 172 < 71" by linarith+
  then have "\<lfloor>float_width 1 172\<rfloor> = 70" by (simp add: floor_unique)
  moreover have "0 \<le> float_width 1 172" using \<open>70 \<le> float_width 1 172\<close> by simp
  ultimately show "disk_width 1 172 = 70" by (simp add: disk_width_float py_int_def)
qed

lemma disk_width_5: "disk_width 0 5 = 70" "disk_width 4 5 = 240"
proof -
  have "float_width 0 5 = 70"
    by (simp add: float_width_unfold float_round_ints float_round_0)
  then show "disk_width 0 5 = 70" by (simp add: disk_width_float py_int_def)
  have "float_width 4 5 = 240"
    by (simp add: float_width_unfold float_round_ints)
  then show "disk_width 4 5 = 240" by (simp add: disk_width_float py_int_def)
qed

text \<open>
  With 171 disks the step is exactly one pixel, so the width at index \<open>j\<close> is
  \<open>70 + j\<close> only if no rounding falls below the integer. That is settled by
  evaluating all 171 widths; \<open>rne\<close> on a fraction is integer division with remainder.
\<close>

lemma rne_frac:
  assumes "0 < b"
  shows "rne (of_int a / of_int b) =
          (if 2 * (a mod b) < b then a div b
           else if b < 2 * (a mod b) then a div b + 1
           else if even (a div b) then a div b else a div b + 1)"
proof -
  define q :: rat where "q = of_int a / of_int b"
  have bpos: "(0::rat) < of_int b" using assms by simp
  have fl: "\<lfloor>q\<rfloor> = a div b" by (simp add: q_def floor_divide_of_int_eq)
  have "of_int a = (of_int (a div b) * of_int b + of_int (a mod b) :: rat)"
    by (metis of_int_add of_int_mult div_mult_mod_eq)
  then have d: "q - of_int (a div b) = of_int (a mod b) / of_int b"
    using bpos by (simp add: q_def field_simps)
  have lt: "(q - of_int (a div b) < 1 / 2) = (2 * (a mod b) < b)"
  proof -
    have "(of_int (a mod b) / of_int b < (1::rat) / 2) = (of_int (2 * (a mod b)) < (of_int b :: rat))"
      using bpos by (simp add: field_simps)
    then show ?thesis by (simp only: d of_int_less_iff)
  qed
  have gt: "(1 / 2 < q - of_int (a div b)) = (b < 2 * (a mod b))"
  proof -
    have "((1::rat) / 2 < of_int (a mod b) / of_int b) = ((of_int b :: rat) < of_int (2 * (a mod b)))"
      using bpos by (simp add: field_simps)
    then show ?thesis by (simp only: d of_int_less_iff)
  qed
  show ?thesis
    unfolding rne_def Let_def q_def [symmetric] fl lt gt by simp
qed

lemma rne_numeral_frac:
  "rne (numeral a / numeral b) =
          (if 2 * (numeral a mod numeral b) < (numeral b :: int) then numeral a div numeral b
           else if (numeral b :: int) < 2 * (numeral a mod numeral b) then numeral a div numeral b + 1
           else if even (numeral a div numeral b :: int) then numeral a div numeral b
           else numeral a div numeral b + 1)"
  using rne_frac [of "numeral b" "numeral a"] by simp

lemma rne_numeral: "rne (numeral a) = numeral a"
  using rne_of_int [of "numeral a"] by simp

lemmas fl_eval = float_round_def round53_def expo_def expo_up.simps expo_down.simps
  rne_numeral_frac rne_numeral Let_def power_int_minus_divide


lemmas w_eval = disk_width_float py_int_def float_width_unfold fl_eval

lemma widths_171_1: "\<forall>j \<in> set [0..28]. disk_width j 171 = 70 + j"
  apply (simp add: upto_rec1)
  apply (simp add: w_eval)
  done

lemma widths_171_2: "\<forall>j \<in> set [29..57]. disk_width j 171 = 70 + j"
  apply (simp add: upto_rec1)
  apply (simp add: w_eval)
  done

lemma widths_171_3: "\<forall>j \<in> set [58..86]. disk_width j 171 = 70 + j"
  apply (simp add: upto_rec1)
  apply (simp add: w_eval)
  done

lemma widths_171_4: "\<forall>j \<in> set [87..115]. disk_width j 171 = 70 + j"
  apply (simp add: upto_rec1)
  apply (simp add: w_eval)
  done

lemma widths_171_5: "\<forall>j \<in> set [116..144]. disk_width j 171 = 70 + j"
  apply (simp add: upto_rec1)
  apply (simp add: w_eval)
  done

lemma widths_171_6: "\<forall>j \<in> set [145..170]. disk_width j 171 = 70 + j"
  apply (simp add: upto_rec1)
  apply (simp add: w_eval)
  done

lemma widths_171:
  assumes "0 \<le> j" and "j \<le> 170"
  shows "disk_width j 171 = 70 + j"
proof -
  have "j \<in> set [0..28] \<or> j \<in> set [29..57] \<or> j \<in> set [58..86]
        \<or> j \<in> set [87..115] \<or> j \<in> set [116..144] \<or> j \<in> set [145..170]"
    using assms unfolding set_upto atLeastAtMost_iff by arith
  then show ?thesis
    using widths_171_1 widths_171_2 widths_171_3 widths_171_4 widths_171_5 widths_171_6
    by blast
qed

lemma disk_width_strict_171:
  assumes "1 < n" and "n \<le> 171" and "0 \<le> i" and "i < j" and "j < n"
  shows "disk_width i n < disk_width j n"
proof (cases "n = 171")
  case True
  then show ?thesis using assms widths_171 [of i] widths_171 [of j] by simp
next
  case False
  then show ?thesis using assms by (intro disk_width_strict) simp_all
qed

section \<open>Disk widths\<close>

text \<open>
  C6, as the code has it. With \<open>total_disks = 5\<close> the index 0 gives the minimum width
  and the index 4 the maximum width. Over \<open>0 \<le> size_index < total_disks\<close> the width
  never decreases with the index, for any \<open>total_disks\<close>, and it is strictly
  increasing exactly as long as the step \<open>170 / (total_disks - 1)\<close> is at least one
  pixel, that is for \<open>1 < total_disks \<le> 171\<close>; this covers every disk count the
  driver passes (\<open>max_n\<close> is at most 24). The claim's "every \<open>total_disks > 1\<close>" fails:
  \<^verbatim>\<open>int(...)\<close> truncates to whole pixels, and with 172 disks the step is below one
  pixel, so the indices 0 and 1 both get the width 70.
\<close>

theorem disk_width_range:
  "width (Disk 0 5) = DISK_MIN_WIDTH \<and> width (Disk 4 5) = DISK_MAX_WIDTH
   \<and> (1 < n \<and> n \<le> 171 \<and> 0 \<le> i \<and> i < j \<and> j < n \<longrightarrow> width (Disk i n) < width (Disk j n))
   \<and> (0 \<le> i \<and> i \<le> j \<and> j < n \<longrightarrow> width (Disk i n) \<le> width (Disk j n))
   \<and> max_n num_disks \<le> 171"
  using disk_width_5 disk_width_strict_171 [of n i j] disk_width_mono [of i j n]
  by (simp add: Disk_def DISK_MIN_WIDTH_def DISK_MAX_WIDTH_def max_n_def DISK_COLORS_def)

theorem disk_width_range_witness:
  "(1::int) < 171 \<and> (171::int) \<le> 171 \<and> (0::int) \<le> 169 \<and> (169::int) < 170 \<and> (170::int) < 171
   \<and> width (Disk 169 171) < width (Disk 170 171)
   \<and> (1::int) < 24 \<and> (24::int) \<le> 171 \<and> (0::int) \<le> 22 \<and> (22::int) < 23 \<and> (23::int) < 24
   \<and> width (Disk 22 24) < width (Disk 23 24)
   \<and> (0::int) \<le> 0 \<and> (0::int) \<le> 1 \<and> (1::int) < 172
   \<and> width (Disk 0 172) \<le> width (Disk 1 172)"
  using disk_width_range [of 171 169 170] disk_width_range [of 24 22 23]
    disk_width_range [of 172 0 1]
  by simp

theorem disk_width_not_strict:
  "(1::int) < 172 \<and> (0::int) \<le> 0 \<and> (0::int) < 1 \<and> (1::int) < 172
   \<and> width (Disk 0 172) = 70 \<and> width (Disk 1 172) = 70
   \<and> \<not> width (Disk 0 172) < width (Disk 1 172)"
  by (simp add: Disk_def disk_width_172)

section \<open>Replaying a move sequence\<close>

lemma legal_play_append:
  "legal_play pegs (xs @ ys) = (legal_play pegs xs \<and> legal_play (foldl step pegs xs) ys)"
  by (induction xs arbitrary: pegs) auto

lemma play_append:
  "play pegs (xs @ ys) = play pegs xs @ play (foldl step pegs xs) ys"
  by (induction xs arbitrary: pegs) auto

lemma length_play: "length (play pegs ms) = length ms"
  by (induction ms arbitrary: pegs) auto

lemma step_simps:
  assumes "si < length pegs" and "di < length pegs" and "si \<noteq> di"
  shows "length (step pegs (int si, int di)) = length pegs"
    and "stack (step pegs (int si, int di) ! si) = butlast (stack (pegs ! si))"
    and "stack (step pegs (int si, int di) ! di) = stack (pegs ! di) @ [last (stack (pegs ! si))]"
    and "\<And>i. i \<noteq> si \<Longrightarrow> i \<noteq> di \<Longrightarrow> step pegs (int si, int di) ! i = pegs ! i"
  using assms by (simp_all add: step_def move_disk_def Let_def)

lemma run_loop_play:
  assumes "no_quit e" and "legal_play pegs (drop k moves)" and "k \<le> length moves"
  shows "\<exists>e1. run_loop pegs moves k e = Inr (foldl step pegs (drop k moves), length moves, e1)
           \<and> no_quit e1
           \<and> scenes (frames e1) = scenes (frames e) @ play pegs (drop k moves)"
  using assms
proof (induction "length moves - k" arbitrary: pegs k e)
  case 0
  then have k: "k = length moves" by simp
  show ?case
    using 0(2) by (subst run_loop.simps) (simp add: k Let_def poll_no_quit)
next
  case (Suc n)
  then have lt: "k < length moves" by simp
  define m where "m = moves ! k"
  have dr: "drop k moves = m # drop (Suc k) moves"
    using lt by (simp add: m_def Cons_nth_drop_Suc)
  have lm: "legal_move pegs m" and lp: "legal_play (step pegs m) (drop (Suc k) moves)"
    using Suc.prems(2) by (simp_all add: dr)
  define e0 where "e0 = snd (poll e)"
  have nq0: "no_quit e0" and fr0: "frames e0 = frames e"
    using Suc.prems(1) by (simp_all add: e0_def poll_no_quit)
  have si: "py_index pegs (fst m) = Inr (nat (fst m))"
    and di: "py_index pegs (snd m) = Inr (nat (snd m))"
    and ne: "stack (pegs ! nat (fst m)) \<noteq> []"
    using lm by (simp_all add: legal_move_def py_index_def)
  from animate_move_no_quit [OF nq0 si di ne, of k]
  obtain e2 where a: "animate_move pegs k (fst m) (snd m) e0 = Inr (step pegs m, e2)"
    "no_quit e2" "scenes (frames e2) = scenes (frames e0)"
    by (auto simp: step_def)
  define e3 where "e3 = draw_scene (step pegs m) (k + 1) e2"
  have nq3: "no_quit e3" and sc3: "scenes (frames e3) = scenes (frames e) @ [step pegs m]"
    using a by (simp_all add: e3_def draw_scene_simps scenes_append fr0)
  have unf: "run_loop pegs moves k e = run_loop (step pegs m) moves (Suc k) e3"
    using lt a(1) Suc.prems(1)
    by (subst run_loop.simps) (simp add: Let_def poll_no_quit m_def [symmetric] e0_def [symmetric] e3_def)
  have "n = length moves - Suc k" using Suc.hyps(2) by simp
  from Suc.hyps(1) [OF this nq3 lp] lt
  obtain e4 where "run_loop (step pegs m) moves (Suc k) e3
      = Inr (foldl step (step pegs m) (drop (Suc k) moves), length moves, e4)"
    "no_quit e4" "scenes (frames e4) = scenes (frames e3) @ play (step pegs m) (drop (Suc k) moves)"
    by auto
  then show ?case
    by (simp add: unf dr sc3)
qed

lemma hanoi_moves_0: "hanoi_moves 0 s a d = []"
  by (simp add: hanoi_moves.simps)

lemma hanoi_moves_Suc:
  "hanoi_moves (int (Suc k)) s a d
     = hanoi_moves (int k) s d a @ (s, d) # hanoi_moves (int k) a s d"
  by (subst hanoi_moves.simps) simp

lemma valid_state_nth: "valid_state pegs = (\<forall>i < length pegs. sorted_desc (stack (pegs ! i)))"
  by (simp add: valid_state_def list_all_length)

lemma hanoi_play:
  assumes "si < length pegs" and "ai < length pegs" and "di < length pegs"
    and "si \<noteq> ai" and "si \<noteq> di" and "ai \<noteq> di"
    and "stack (pegs ! si) = S @ ds" and "length ds = k"
    and "valid_state pegs"
    and "\<forall>z \<in> set ds. \<forall>y \<in> set (stack (pegs ! ai)) \<union> set (stack (pegs ! di)). width z \<le> width y"
  shows "legal_play pegs (hanoi_moves (int k) (int si) (int ai) (int di))
         \<and> length (foldl step pegs (hanoi_moves (int k) (int si) (int ai) (int di))) = length pegs
         \<and> valid_state (foldl step pegs (hanoi_moves (int k) (int si) (int ai) (int di)))
         \<and> stack (foldl step pegs (hanoi_moves (int k) (int si) (int ai) (int di)) ! si) = S
         \<and> stack (foldl step pegs (hanoi_moves (int k) (int si) (int ai) (int di)) ! ai)
             = stack (pegs ! ai)
         \<and> stack (foldl step pegs (hanoi_moves (int k) (int si) (int ai) (int di)) ! di)
             = stack (pegs ! di) @ ds
         \<and> (\<forall>i. i \<noteq> si \<longrightarrow> i \<noteq> ai \<longrightarrow> i \<noteq> di \<longrightarrow>
                foldl step pegs (hanoi_moves (int k) (int si) (int ai) (int di)) ! i = pegs ! i)"
  using assms
proof (induction k arbitrary: pegs si ai di S ds)
  case 0
  then show ?case by (simp add: hanoi_moves_0)
next
  case (Suc k)
  from Suc.prems(8) obtain x ds' where ds: "ds = x # ds'" and len: "length ds' = k"
    by (cases ds) auto
  define A where "A = stack (pegs ! ai)"
  define D where "D = stack (pegs ! di)"
  define ms1 where "ms1 = hanoi_moves (int k) (int si) (int di) (int ai)"
  define ms3 where "ms3 = hanoi_moves (int k) (int ai) (int si) (int di)"
  define P1 where "P1 = foldl step pegs ms1"
  define P2 where "P2 = step P1 (int si, int di)"
  define P3 where "P3 = foldl step P2 ms3"
  have ms: "hanoi_moves (int (Suc k)) (int si) (int ai) (int di) = ms1 @ (int si, int di) # ms3"
    by (simp only: hanoi_moves_Suc ms1_def ms3_def)
  have fin: "foldl step pegs (ms1 @ (int si, int di) # ms3) = P3"
    by (simp add: P1_def P2_def P3_def)
  have sorted_s: "sorted_desc (S @ x # ds')"
    using Suc.prems(9,7,1) by (auto simp: valid_state_nth ds)
  have small: "\<forall>z \<in> set (x # ds'). \<forall>y \<in> set A \<union> set D. width z \<le> width y"
    using Suc.prems(10) by (simp add: ds A_def D_def)
  \<comment> \<open>the upper \<open>k\<close> disks go to the auxiliary peg\<close>
  have st1: "stack (pegs ! si) = (S @ [x]) @ ds'" using Suc.prems(7) by (simp add: ds)
  have sm1: "\<forall>z \<in> set ds'. \<forall>y \<in> set (stack (pegs ! di)) \<union> set (stack (pegs ! ai)). width z \<le> width y"
    using small by (auto simp: A_def D_def)
  from Suc.IH [OF Suc.prems(1) Suc.prems(3) Suc.prems(2) Suc.prems(5) Suc.prems(4)
      Suc.prems(6) [symmetric] st1 len Suc.prems(9) sm1]
  have r1: "legal_play pegs ms1" "length P1 = length pegs" "valid_state P1"
    "stack (P1 ! si) = S @ [x]" "stack (P1 ! di) = D" "stack (P1 ! ai) = A @ ds'"
    "\<forall>i. i \<noteq> si \<longrightarrow> i \<noteq> ai \<longrightarrow> i \<noteq> di \<longrightarrow> P1 ! i = pegs ! i"
    by (auto simp: ms1_def P1_def A_def D_def)
  \<comment> \<open>the bottom disk of the block goes to the destination\<close>
  have lt1: "si < length P1" "di < length P1" "ai < length P1"
    using Suc.prems(1-3) r1(2) by simp_all
  have lm: "legal_move P1 (int si, int di)"
    using lt1 Suc.prems(5) r1(4,5) small by (cases "D = []") (auto simp: legal_move_def)
  have r2: "length P2 = length pegs" "stack (P2 ! si) = S" "stack (P2 ! di) = D @ [x]"
    "stack (P2 ! ai) = A @ ds'"
    "\<forall>i. i \<noteq> si \<longrightarrow> i \<noteq> ai \<longrightarrow> i \<noteq> di \<longrightarrow> P2 ! i = pegs ! i"
    using step_simps [OF lt1(1,2) Suc.prems(5)] r1 Suc.prems(4,6)
    by (simp_all add: P2_def)
  have sortedD: "sorted_desc (D @ [x])"
    using r1(3) lt1(2) r1(5) small
    by (auto simp: valid_state_nth sorted_desc_def sorted_wrt_append)
  have sortedS: "sorted_desc S"
    using sorted_s by (simp add: sorted_desc_def sorted_wrt_append)
  have v2: "valid_state P2"
    unfolding valid_state_nth
  proof (intro allI impI)
    fix i assume i: "i < length P2"
    show "sorted_desc (stack (P2 ! i))"
    proof (cases "i = si \<or> i = di")
      case True
      then show ?thesis using r2(2,3) sortedD sortedS by auto
    next
      case False
      then have "P2 ! i = P1 ! i"
        using step_simps(4) [OF lt1(1,2) Suc.prems(5), of i] by (simp add: P2_def)
      then show ?thesis using r1(3) i r2(1) r1(2) by (simp add: valid_state_nth)
    qed
  qed
  \<comment> \<open>the upper \<open>k\<close> disks follow from the auxiliary peg\<close>
  have lt2: "ai < length P2" "si < length P2" "di < length P2"
    using Suc.prems(1-3) r2(1) by simp_all
  have sm3: "\<forall>z \<in> set ds'. \<forall>y \<in> set (stack (P2 ! si)) \<union> set (stack (P2 ! di)). width z \<le> width y"
    using small sorted_s by (auto simp: r2 sorted_desc_def sorted_wrt_append)
  from Suc.IH [OF lt2 Suc.prems(4) [symmetric] Suc.prems(6) Suc.prems(5) r2(4) len v2 sm3]
  have r3: "legal_play P2 ms3" "length P3 = length pegs" "valid_state P3"
    "stack (P3 ! ai) = A" "stack (P3 ! si) = S" "stack (P3 ! di) = (D @ [x]) @ ds'"
    "\<forall>i. i \<noteq> ai \<longrightarrow> i \<noteq> si \<longrightarrow> i \<noteq> di \<longrightarrow> P3 ! i = P2 ! i"
    by (auto simp: ms3_def P3_def r2)
  have lp: "legal_play pegs (ms1 @ (int si, int di) # ms3)"
    using r1(1) lm v2 r3(1) by (simp add: legal_play_append P1_def [symmetric] P2_def [symmetric])
  show ?case
    unfolding ms fin
    using lp r3 r2(5) by (simp add: ds A_def D_def)
qed

section \<open>A whole run\<close>

lemma length_initial_stack: "length (initial_stack n) = nat n"
  by (simp add: initial_stack_def)

lemma initial_stack_sorted: "sorted_desc (initial_stack n)"
proof -
  have "sorted_wrt (\<lambda>i j. width (Disk (i - 1) n) \<le> width (Disk (j - 1) n)) [1..n]"
  proof (rule sorted_wrt_mono_rel [of _ "(<)"])
    fix i j :: int
    assume "i \<in> set [1..n]" and "i < j"
    then have "0 \<le> i - 1" "i - 1 \<le> j - 1" by simp_all
    then show "width (Disk (i - 1) n) \<le> width (Disk (j - 1) n)"
      by (simp add: Disk_def disk_width_mono)
  qed simp
  then show ?thesis
    by (simp add: sorted_desc_def initial_stack_def sorted_wrt_map sorted_wrt_rev)
qed

lemma hanoi_moves_nat: "hanoi_moves (int (nat n)) s a d = hanoi_moves n s a d"
  by (cases "0 \<le> n") (simp_all add: hanoi_moves.simps)

lemma legal_play_nth:
  assumes "legal_play pegs ms" and "valid_state pegs"
  shows "(\<forall>k \<le> length ms. valid_state ((pegs # play pegs ms) ! k))
         \<and> (\<forall>k < length ms. legal_move ((pegs # play pegs ms) ! k) (ms ! k)
                \<and> (pegs # play pegs ms) ! Suc k = step ((pegs # play pegs ms) ! k) (ms ! k))"
  using assms
proof (induction ms arbitrary: pegs)
  case Nil
  then show ?case by simp
next
  case (Cons m ms)
  from Cons.prems have lm: "legal_move pegs m" and v: "valid_state (step pegs m)"
    and lp: "legal_play (step pegs m) ms"
    by simp_all
  note ih = Cons.IH [OF lp v]
  show ?case
  proof (intro conjI allI impI)
    fix k assume "k \<le> length (m # ms)"
    then show "valid_state ((pegs # play pegs (m # ms)) ! k)"
      using ih Cons.prems(2) by (cases k) simp_all
  next
    fix k assume "k < length (m # ms)"
    then show "legal_move ((pegs # play pegs (m # ms)) ! k) ((m # ms) ! k)"
      using ih lm by (cases k) simp_all
  next
    fix k assume "k < length (m # ms)"
    then show "(pegs # play pegs (m # ms)) ! Suc k
                 = step ((pegs # play pegs (m # ms)) ! k) ((m # ms) ! k)"
      using ih by (cases k) simp_all
  qed
qed

lemma map3: "length xs = 3 \<Longrightarrow> map f xs = [f (xs ! 0), f (xs ! 1), f (xs ! 2)]"
  by (auto simp: length_Suc_conv numeral_3_eq_3)

lemma run_unfold:
  "run W H n e = run_loop (initial_pegs W H n) (hanoi_moves n 0 1 2) 0
                   (draw_scene (initial_pegs W H n) 0 e)"
  by (simp add: run_def peg_positions_def PEG_COUNT_def upto_rec1 Let_def Peg_def initial_pegs_def)

lemma run_play:
  assumes "no_quit e"
  shows "\<exists>e1. run W H n e
             = Inr (foldl step (initial_pegs W H n) (hanoi_moves n 0 1 2),
                    length (hanoi_moves n 0 1 2), e1)
           \<and> scenes (frames e1)
               = scenes (frames e) @ initial_pegs W H n # play (initial_pegs W H n) (hanoi_moves n 0 1 2)"
    and "legal_play (initial_pegs W H n) (hanoi_moves n 0 1 2)"
    and "valid_state (initial_pegs W H n)"
    and "map stack (foldl step (initial_pegs W H n) (hanoi_moves n 0 1 2)) = [[], [], initial_stack n]"
proof -
  define P where "P = initial_pegs W H n"
  define ms where "ms = hanoi_moves n 0 1 2"
  have st: "stack (P ! 0) = [] @ initial_stack n" "stack (P ! 1) = []" "stack (P ! 2) = []"
    and len: "length P = 3"
    by (simp_all add: P_def initial_pegs_def)
  show v: "valid_state (initial_pegs W H n)"
    by (simp add: valid_state_def initial_pegs_def initial_stack_sorted) (simp add: sorted_desc_def)
  have sm: "\<forall>z \<in> set (initial_stack n). \<forall>y \<in> set (stack (P ! 1)) \<union> set (stack (P ! 2)). width z \<le> width y"
    unfolding st by simp
  have "hanoi_moves (int (nat n)) (int 0) (int 1) (int 2) = ms"
    by (simp only: ms_def hanoi_moves_nat of_nat_0 of_nat_1 of_nat_numeral)
  with hanoi_play [of 0 P 1 2 "[]" "initial_stack n" "nat n", OF _ _ _ _ _ _ st(1) length_initial_stack
      v [folded P_def] sm]
  have h: "legal_play P ms" "length (foldl step P ms) = 3"
    "stack (foldl step P ms ! 0) = []" "stack (foldl step P ms ! 1) = []"
    "stack (foldl step P ms ! 2) = initial_stack n"
    using len st by simp_all
  show "legal_play (initial_pegs W H n) (hanoi_moves n 0 1 2)"
    using h(1) by (simp add: P_def ms_def)
  show "map stack (foldl step (initial_pegs W H n) (hanoi_moves n 0 1 2)) = [[], [], initial_stack n]"
    using map3 [OF h(2), of stack] h(3-5) by (simp add: P_def ms_def)
  have nq: "no_quit (draw_scene P 0 e)" using assms by (simp add: draw_scene_simps)
  from run_loop_play [OF nq, of P 0 ms] h(1)
  obtain e1 where "run_loop P ms 0 (draw_scene P 0 e) = Inr (foldl step P ms, length ms, e1)"
    "scenes (frames e1) = scenes (frames (draw_scene P 0 e)) @ play P ms"
    by auto
  then show "\<exists>e1. run W H n e
             = Inr (foldl step (initial_pegs W H n) (hanoi_moves n 0 1 2),
                    length (hanoi_moves n 0 1 2), e1)
           \<and> scenes (frames e1)
               = scenes (frames e) @ initial_pegs W H n # play (initial_pegs W H n) (hanoi_moves n 0 1 2)"
    by (simp add: run_unfold P_def ms_def draw_scene_simps scenes_append)
qed

text \<open>
  C3. For every \<open>n \<ge> 1\<close>, a run that no close request disturbs starts from the
  state with all \<open>n\<close> disks on peg 0, widest at the bottom (the first scene drawn),
  plays all \<open>2^n - 1\<close> moves and ends with pegs 0 and 1 empty and the same stack, in
  the same order, on peg 2.
\<close>

theorem run_moves_tower:
  assumes "1 \<le> n" and "no_quit e"
  shows "\<exists>pegs0 sts pegs1 e1.
           run W H n e = Inr (pegs1, 2 ^ nat n - 1, e1)
           \<and> scenes (frames e1) = scenes (frames e) @ pegs0 # sts
           \<and> map stack pegs0 = [initial_stack n, [], []]
           \<and> map stack pegs1 = [[], [], initial_stack n]
           \<and> length (initial_stack n) = nat n
           \<and> sorted_desc (initial_stack n)"
proof -
  from run_play(1) [OF assms(2), of W H n] obtain e1 where
    "run W H n e = Inr (foldl step (initial_pegs W H n) (hanoi_moves n 0 1 2),
                    length (hanoi_moves n 0 1 2), e1)"
    "scenes (frames e1)
       = scenes (frames e) @ initial_pegs W H n # play (initial_pegs W H n) (hanoi_moves n 0 1 2)"
    by blast
  moreover have "map stack (initial_pegs W H n) = [initial_stack n, [], []]"
    by (simp add: initial_pegs_def)
  ultimately show ?thesis
    using run_play(4) [OF assms(2), of W H n]
    by (simp add: hanoi_moves_length length_initial_stack initial_stack_sorted)
qed

theorem run_moves_tower_witness:
  "(1::int) \<le> 3 \<and> no_quit \<lparr>events = [False, False], frames = []\<rparr>
   \<and> (\<exists>pegs0 sts pegs1 e1.
         run 1920 1080 3 \<lparr>events = [False, False], frames = []\<rparr> = Inr (pegs1, 7, e1)
         \<and> scenes (frames e1) = pegs0 # sts
         \<and> map stack pegs0 = [initial_stack 3, [], []]
         \<and> map stack pegs1 = [[], [], initial_stack 3]
         \<and> length (initial_stack 3) = 3
         \<and> sorted_desc (initial_stack 3))"
proof -
  have nq: "no_quit \<lparr>events = [False, False], frames = []\<rparr>" by (simp add: no_quit_def)
  show ?thesis
    using nq run_moves_tower [of 3 "\<lparr>events = [False, False], frames = []\<rparr>" 1920 1080]
    by simp
qed

text \<open>
  C4. For every \<open>n \<ge> 1\<close>, in a run that no close request disturbs the scenes drawn
  are the states between the moves: the run raises no \<^verbatim>\<open>IndexError\<close> (no pop from
  an empty stack), every state has all stacks sorted by width with the widest disk at
  the bottom, and every move is legal in the state it is played in: its source stack
  is not empty and the disk it takes is not wider than the top disk of its
  destination.
\<close>

theorem run_stays_legal:
  assumes "1 \<le> n" and "no_quit e"
  shows "\<exists>sts pegs1 e1.
           run W H n e = Inr (pegs1, length (hanoi_moves n 0 1 2), e1)
           \<and> scenes (frames e1) = scenes (frames e) @ sts
           \<and> length sts = length (hanoi_moves n 0 1 2) + 1
           \<and> map stack (sts ! 0) = [initial_stack n, [], []]
           \<and> (\<forall>k \<le> length (hanoi_moves n 0 1 2). valid_state (sts ! k))
           \<and> (\<forall>k < length (hanoi_moves n 0 1 2).
                  legal_move (sts ! k) (hanoi_moves n 0 1 2 ! k)
                  \<and> sts ! Suc k = step (sts ! k) (hanoi_moves n 0 1 2 ! k))"
proof -
  define P where "P = initial_pegs W H n"
  define ms where "ms = hanoi_moves n 0 1 2"
  from run_play(1) [OF assms(2), of W H n] obtain e1 where
    r: "run W H n e = Inr (foldl step P ms, length ms, e1)"
    "scenes (frames e1) = scenes (frames e) @ P # play P ms"
    unfolding P_def ms_def by blast
  note lpn = legal_play_nth [OF run_play(2,3) [OF assms(2), of W H n], folded P_def ms_def]
  show ?thesis
    unfolding ms_def [symmetric]
  proof (intro exI conjI)
    show "run W H n e = Inr (foldl step P ms, length ms, e1)" by (rule r(1))
    show "scenes (frames e1) = scenes (frames e) @ P # play P ms" by (rule r(2))
    show "length (P # play P ms) = length ms + 1" by (simp add: length_play)
    show "map stack ((P # play P ms) ! 0) = [initial_stack n, [], []]"
      by (simp add: P_def initial_pegs_def)
    show "\<forall>k \<le> length ms. valid_state ((P # play P ms) ! k)" using lpn by (rule conjunct1)
    show "\<forall>k < length ms. legal_move ((P # play P ms) ! k) (ms ! k)
            \<and> (P # play P ms) ! Suc k = step ((P # play P ms) ! k) (ms ! k)"
      using lpn by (rule conjunct2)
  qed
qed

theorem run_stays_legal_witness:
  "(1::int) \<le> 2 \<and> no_quit \<lparr>events = [], frames = []\<rparr>
   \<and> (\<exists>sts pegs1 e1.
         run 1920 1080 2 \<lparr>events = [], frames = []\<rparr>
           = Inr (pegs1, length (hanoi_moves 2 0 1 2), e1)
         \<and> scenes (frames e1) = sts
         \<and> length sts = length (hanoi_moves 2 0 1 2) + 1
         \<and> map stack (sts ! 0) = [initial_stack 2, [], []]
         \<and> (\<forall>k \<le> length (hanoi_moves 2 0 1 2). valid_state (sts ! k))
         \<and> (\<forall>k < length (hanoi_moves 2 0 1 2).
                legal_move (sts ! k) (hanoi_moves 2 0 1 2 ! k)
                \<and> sts ! Suc k = step (sts ! k) (hanoi_moves 2 0 1 2 ! k)))"
proof -
  have nq: "no_quit \<lparr>events = [], frames = []\<rparr>" by (simp add: no_quit_def)
  have le: "(1::int) \<le> 2" by simp
  from run_stays_legal [OF le nq, of 1920 1080]
  have "\<exists>sts pegs1 e1.
         run 1920 1080 2 \<lparr>events = [], frames = []\<rparr>
           = Inr (pegs1, length (hanoi_moves 2 0 1 2), e1)
         \<and> scenes (frames e1) = sts
         \<and> length sts = length (hanoi_moves 2 0 1 2) + 1
         \<and> map stack (sts ! 0) = [initial_stack 2, [], []]
         \<and> (\<forall>k \<le> length (hanoi_moves 2 0 1 2). valid_state (sts ! k))
         \<and> (\<forall>k < length (hanoi_moves 2 0 1 2).
                legal_move (sts ! k) (hanoi_moves 2 0 1 2 ! k)
                \<and> sts ! Suc k = step (sts ! k) (hanoi_moves 2 0 1 2 ! k))"
    by (simp only: env.simps scenes.simps append_Nil)
  with le nq show ?thesis by (intro conjI)
qed

end
